theory Spec2Isabelle
  imports Complex_Main "HOL-Library.AList"
begin

section \<open>Go values used by litevec\<close>

subsection \<open>float64\<close>

text \<open>
  Go's \<open>float64\<close> with the IEEE 754 special values that the code produces: a division by
  zero does not panic, it yields an infinity or NaN, and a result that is too large
  overflows to an infinity.  Finite values are the reals: rounding, underflow and the sign
  of zero are not modelled.
\<close>

datatype float64 = Fin real | PInf | NInf | NaN

text \<open>
  The overflow threshold is \<open>2 ^ 1024 - 2 ^ 970\<close>, half a unit in the last place above the
  largest finite \<open>float64\<close>: from there on rounding to nearest gives an infinity.
\<close>

definition overflow_threshold :: real where
  "overflow_threshold = 179769313486231580793728971405303415079934132710037826936173778980444968292764750946649017977587207096330286416692887910946555547851940402630657488671505820681908902000708383676273854845817711531764475730270069855571366959622842914819860834936475292719074168444365510704342711559699508093042880177904174497792"

definition overflow :: "real \<Rightarrow> float64" where
  "overflow x = (if overflow_threshold \<le> x then PInf
                 else if x \<le> - overflow_threshold then NInf else Fin x)"

fun fadd :: "float64 \<Rightarrow> float64 \<Rightarrow> float64" where
  "fadd (Fin x) (Fin y) = overflow (x + y)"
| "fadd (Fin x) PInf = PInf"
| "fadd (Fin x) NInf = NInf"
| "fadd PInf (Fin y) = PInf"
| "fadd PInf PInf = PInf"
| "fadd PInf NInf = NaN"
| "fadd NInf (Fin y) = NInf"
| "fadd NInf PInf = NaN"
| "fadd NInf NInf = NInf"
| "fadd NaN y = NaN"
| "fadd x NaN = NaN"

fun fmul :: "float64 \<Rightarrow> float64 \<Rightarrow> float64" where
  "fmul (Fin x) (Fin y) = overflow (x * y)"
| "fmul (Fin x) PInf = (if x = 0 then NaN else if 0 < x then PInf else NInf)"
| "fmul (Fin x) NInf = (if x = 0 then NaN else if 0 < x then NInf else PInf)"
| "fmul PInf (Fin y) = (if y = 0 then NaN else if 0 < y then PInf else NInf)"
| "fmul NInf (Fin y) = (if y = 0 then NaN else if 0 < y then NInf else PInf)"
| "fmul PInf PInf = PInf"
| "fmul PInf NInf = NInf"
| "fmul NInf PInf = NInf"
| "fmul NInf NInf = PInf"
| "fmul NaN y = NaN"
| "fmul x NaN = NaN"

fun fdiv :: "float64 \<Rightarrow> float64 \<Rightarrow> float64" where
  "fdiv (Fin x) (Fin y) =
     (if y = 0 then (if x = 0 then NaN else if 0 < x then PInf else NInf)
      else overflow (x / y))"
| "fdiv (Fin x) PInf = Fin 0"
| "fdiv (Fin x) NInf = Fin 0"
| "fdiv PInf (Fin y) = (if y < 0 then NInf else PInf)"
| "fdiv NInf (Fin y) = (if y < 0 then PInf else NInf)"
| "fdiv PInf PInf = NaN"
| "fdiv PInf NInf = NaN"
| "fdiv NInf PInf = NaN"
| "fdiv NInf NInf = NaN"
| "fdiv NaN y = NaN"
| "fdiv x NaN = NaN"

text \<open>\<open>math.Abs\<close> and \<open>math.Log\<close> with their documented special cases.\<close>

fun fabs :: "float64 \<Rightarrow> float64" where
  "fabs (Fin x) = Fin \<bar>x\<bar>"
| "fabs PInf = PInf"
| "fabs NInf = PInf"
| "fabs NaN = NaN"

fun flog :: "float64 \<Rightarrow> float64" where
  "flog (Fin x) = (if x < 0 then NaN else if x = 0 then NInf else Fin (ln x))"
| "flog PInf = PInf"
| "flog NInf = NaN"
| "flog NaN = NaN"

text \<open>The comparison \<open><\<close>: false as soon as one side is NaN.\<close>

fun flt :: "float64 \<Rightarrow> float64 \<Rightarrow> bool" where
  "flt (Fin x) (Fin y) = (x < y)"
| "flt (Fin x) PInf = True"
| "flt NInf (Fin y) = True"
| "flt NInf PInf = True"
| "flt x y = False"

definition fle :: "float64 \<Rightarrow> float64 \<Rightarrow> bool" where
  "fle x y = (flt x y \<or> x = y)"

text \<open>The conversion \<open>float64(i)\<close> of an \<open>int\<close>.\<close>

definition float64_of_int :: "int \<Rightarrow> float64" where
  "float64_of_int i = Fin (of_int i)"

definition is_finite :: "float64 \<Rightarrow> bool" where
  "is_finite x = (case x of Fin _ \<Rightarrow> True | _ \<Rightarrow> False)"

subsection \<open>Run-time panics\<close>

datatype panic =
    AssignToNilMap
  | IndexOutOfRange
  | SliceBoundsOutOfRange
  | IntegerDivideByZero
  | NilDereference
  | ShapeMismatch

definition bind :: "panic + 'a \<Rightarrow> ('a \<Rightarrow> panic + 'b) \<Rightarrow> panic + 'b" where
  "bind m f = (case m of Inl e \<Rightarrow> Inl e | Inr x \<Rightarrow> f x)"

text \<open>A loop body run over the elements of a list, threading the state; a panic ends it.\<close>

fun foldM :: "('a \<Rightarrow> 's \<Rightarrow> panic + 's) \<Rightarrow> 'a list \<Rightarrow> 's \<Rightarrow> panic + 's" where
  "foldM f [] s = Inr s"
| "foldM f (x # xs) s = (case f x s of Inl e \<Rightarrow> Inl e | Inr s' \<Rightarrow> foldM f xs s')"

subsection \<open>Maps and slices\<close>

text \<open>
  A Go map is \<open>nil\<close> (\<open>None\<close>) or allocated (\<open>Some\<close>); its entries are kept as an association
  list with distinct keys, whose order stands for the order in which \<open>range\<close> visits them
  (Go leaves that order unspecified, so a statement about every list covers every order).
  Reading a nil map behaves like reading an empty one; writing to it panics.
\<close>

type_synonym ('k, 'v) gomap = "('k \<times> 'v) list option"

definition entries :: "('k, 'v) gomap \<Rightarrow> ('k \<times> 'v) list" where
  "entries m = (case m of None \<Rightarrow> [] | Some kvs \<Rightarrow> kvs)"

definition map_len :: "('k, 'v) gomap \<Rightarrow> int" where
  "map_len m = int (length (entries m))"

definition map_get :: "('k, 'v) gomap \<Rightarrow> 'k \<Rightarrow> 'v option" where
  "map_get m k = map_of (entries m) k"

definition map_set :: "('k, 'v) gomap \<Rightarrow> 'k \<Rightarrow> 'v \<Rightarrow> panic + ('k, 'v) gomap" where
  "map_set m k v = (case m of None \<Rightarrow> Inl AssignToNilMap
                    | Some kvs \<Rightarrow> Inr (Some (AList.update k v kvs)))"

definition wf_map :: "('k, 'v) gomap \<Rightarrow> bool" where
  "wf_map m = distinct (map fst (entries m))"

text \<open>Indexing a slice with an \<open>int\<close>: out of range is a panic.\<close>

definition index :: "'a list \<Rightarrow> int \<Rightarrow> panic + 'a" where
  "index xs i = (if 0 \<le> i \<and> i < int (length xs) then Inr (xs ! nat i) else Inl IndexOutOfRange)"

text \<open>The slice expression \<open>xs[:k]\<close> (with \<open>len xs = cap xs\<close>).\<close>

definition slice_to :: "'a list \<Rightarrow> int \<Rightarrow> panic + 'a list" where
  "slice_to xs k = (if 0 \<le> k \<and> k \<le> int (length xs) then Inr (take (nat k) xs)
                    else Inl SliceBoundsOutOfRange)"

text \<open>The integer remainder \<open>a % b\<close>: truncated, with the sign of \<open>a\<close>; a zero divisor panics.\<close>

definition go_rem :: "int \<Rightarrow> int \<Rightarrow> panic + int" where
  "go_rem a b = (if b = 0 then Inl IntegerDivideByZero else Inr (sgn a * (\<bar>a\<bar> mod \<bar>b\<bar>)))"

section \<open>Documents\<close>

type_synonym Text = "string list"

record Doc =
  Tokens :: Text
  TokenIndices :: "(string, int) gomap"

definition VocabLength :: "Doc \<Rightarrow> int" where
  "VocabLength D = map_len (TokenIndices D)"

text \<open>
  \<open>MkDoc\<close>: the result starts as the zero value of \<open>Doc\<close>, whose map is nil, and the loop
  assigns the next id to every token that is not indexed yet.
\<close>

fun MkDoc_loop :: "Text \<Rightarrow> int \<Rightarrow> Doc \<Rightarrow> panic + Doc" where
  "MkDoc_loop [] i rtn = Inr rtn"
| "MkDoc_loop (t # ts) i rtn =
     (case map_get (TokenIndices rtn) t of
        Some _ \<Rightarrow> MkDoc_loop ts i rtn
      | None \<Rightarrow>
          (case map_set (TokenIndices rtn) t i of
             Inl e \<Rightarrow> Inl e
           | Inr m \<Rightarrow> MkDoc_loop ts (i + 1) (rtn\<lparr>TokenIndices := m\<rparr>)))"

definition MkDoc :: "Text \<Rightarrow> panic + Doc" where
  "MkDoc text = MkDoc_loop text 0 \<lparr>Tokens = text, TokenIndices = None\<rparr>"


text \<open>\<open>D.TokenIndices[t]\<close> read as a value: the zero value 0 when the token has no entry.\<close>

definition token_id :: "Doc \<Rightarrow> string \<Rightarrow> int" where
  "token_id D t = (case map_get (TokenIndices D) t of None \<Rightarrow> 0 | Some i \<Rightarrow> i)"

subsection \<open>Unigram probabilities\<close>

text \<open>The statement \<open>rtn[i]++\<close> on a slice of floats.\<close>

definition incr_at :: "float64 list \<Rightarrow> int \<Rightarrow> panic + float64 list" where
  "incr_at xs i =
     (if 0 \<le> i \<and> i < int (length xs) then Inr (xs[nat i := fadd (xs ! nat i) (Fin 1)])
      else Inl IndexOutOfRange)"

definition UnigramPs :: "Doc \<Rightarrow> panic + float64 list" where
  "UnigramPs D =
     bind (foldM (\<lambda>t rtn. incr_at rtn (token_id D t)) (Tokens D)
             (replicate (nat (VocabLength D)) (Fin 0)))
       (\<lambda>rtn. Inr (map (\<lambda>x. fdiv x (float64_of_int (int (length rtn)))) rtn))"

subsection \<open>The sparse matrix\<close>

text \<open>
  Modelled from the spec: the type \<open>sparse.CSR\<close> and its methods \<open>NewCSR\<close>, \<open>At\<close>, \<open>Set\<close>,
  \<open>DoNonZero\<close> and \<open>DoRowNonZero\<close> belong to an imported package whose source is not in the
  repository.  The spec describes a \<open>vocabSize \<times> vocabSize\<close> matrix of float weights stored
  sparsely, in which an absent cell is implicitly zero and the non-zero cells are the ones
  that the \<open>DoNonZero\<close> callbacks visit.  So a matrix is its dimensions and a total function
  from cells to values, a cell outside the dimensions cannot be read or written, and the
  iterations visit the cells whose value is not zero, row by row.  The storage slices that
  \<open>SkipgramPs\<close> hands to \<open>NewCSR\<close> (all zeros, of length \<open>n / 10\<close>) hold no entry.
\<close>

record CSR =
  rows :: int
  cols :: int
  cells :: "int \<times> int \<Rightarrow> float64"

definition NewCSR :: "int \<Rightarrow> int \<Rightarrow> CSR" where
  "NewCSR r c = \<lparr>rows = r, cols = c, cells = (\<lambda>_. Fin 0)\<rparr>"

definition in_range :: "CSR \<Rightarrow> int \<Rightarrow> int \<Rightarrow> bool" where
  "in_range m i j = (0 \<le> i \<and> i < rows m \<and> 0 \<le> j \<and> j < cols m)"

definition At :: "CSR \<Rightarrow> int \<Rightarrow> int \<Rightarrow> panic + float64" where
  "At m i j = (if in_range m i j then Inr (cells m (i, j)) else Inl IndexOutOfRange)"

definition Set :: "CSR \<Rightarrow> int \<Rightarrow> int \<Rightarrow> float64 \<Rightarrow> panic + CSR" where
  "Set m i j v = (if in_range m i j then Inr (m\<lparr>cells := (cells m)((i, j) := v)\<rparr>)
                  else Inl IndexOutOfRange)"

definition row_nonzero :: "CSR \<Rightarrow> int \<Rightarrow> int list" where
  "row_nonzero m i = filter (\<lambda>j. cells m (i, j) \<noteq> Fin 0) [0..cols m - 1]"

definition nonzero :: "CSR \<Rightarrow> (int \<times> int) list" where
  "nonzero m = filter (\<lambda>c. cells m c \<noteq> Fin 0) (List.product [0..rows m - 1] [0..cols m - 1])"

text \<open>
  \<open>DoNonZero\<close> with a callback that works on the matrix itself: the cells to visit are fixed
  when the iteration starts, and each call gets the current value of its cell.
\<close>

definition DoNonZero :: "CSR \<Rightarrow> (int \<Rightarrow> int \<Rightarrow> float64 \<Rightarrow> CSR \<Rightarrow> panic + CSR) \<Rightarrow> panic + CSR" where
  "DoNonZero m fn = foldM (\<lambda>(i, j) s. fn i j (cells s (i, j)) s) (nonzero m) m"

text \<open>\<open>DoRowNonZero\<close> with a callback that updates a captured variable of the caller.\<close>

definition DoRowNonZero :: "CSR \<Rightarrow> int \<Rightarrow> (int \<Rightarrow> int \<Rightarrow> float64 \<Rightarrow> 's \<Rightarrow> 's) \<Rightarrow> 's \<Rightarrow> panic + 's" where
  "DoRowNonZero m i fn s =
     (if 0 \<le> i \<and> i < rows m then Inr (fold (\<lambda>j. fn i j (cells m (i, j))) (row_nonzero m i) s)
      else Inl IndexOutOfRange)"

subsection \<open>Skip-gram co-occurrence\<close>

text \<open>The body of the innermost loop of \<open>SkipgramPs\<close>, for one neighbour \<open>b\<close> of the focus \<open>a\<close>.\<close>

definition accumulate :: "Doc \<Rightarrow> int \<Rightarrow> string \<Rightarrow> string \<Rightarrow> CSR \<Rightarrow> panic + CSR" where
  "accumulate D j a b rtn =
     (let a_i = token_id D a;
          b_i = token_id D b;
          displacement = fabs (float64_of_int j)
      in bind (At rtn a_i b_i) (\<lambda>x. Set rtn a_i b_i (fadd x (fdiv (Fin 1) displacement))))"

text \<open>The body of the loop over the offset \<open>j\<close>, at the focus position \<open>i\<close>.\<close>

definition juxt_step :: "Doc \<Rightarrow> int \<Rightarrow> int \<Rightarrow> CSR \<Rightarrow> panic + CSR" where
  "juxt_step D i j rtn =
     bind (index (Tokens D) i) (\<lambda>a.
     bind (index (Tokens D) (i + j)) (\<lambda>b1.
     bind (index (Tokens D) (i - j)) (\<lambda>b2.
       foldM (accumulate D j a) [b1, b2] rtn)))"

definition cooccurrences :: "Doc \<Rightarrow> int \<Rightarrow> panic + CSR" where
  "cooccurrences D maxJuxt =
     foldM (\<lambda>i. foldM (juxt_step D i) [0..maxJuxt - 1])
       [maxJuxt..int (length (Tokens D)) - maxJuxt - 2]
       (NewCSR (VocabLength D) (VocabLength D))"

text \<open>
  \<open>SkipgramPs\<close>: the accumulation, then the division of every non-zero cell by the number
  of tokens.  The callback divides its argument \<open>v\<close> in the first source file and
  \<open>rtn.At(i, j)\<close> in the second: both are the current value of the visited cell.  The same
  holds for the callback of \<open>PMIs\<close>.
\<close>

definition SkipgramPs :: "Doc \<Rightarrow> int \<Rightarrow> panic + CSR" where
  "SkipgramPs D maxJuxt =
     bind (cooccurrences D maxJuxt) (\<lambda>rtn.
       DoNonZero rtn (\<lambda>i j v r. Set r i j (fdiv v (float64_of_int (int (length (Tokens D)))))))"

subsection \<open>Pointwise mutual information\<close>

definition PMIs :: "Doc \<Rightarrow> int \<Rightarrow> panic + CSR" where
  "PMIs D maxJuxt =
     bind (UnigramPs D) (\<lambda>U.
     bind (SkipgramPs D maxJuxt) (\<lambda>N.
       DoNonZero N (\<lambda>i j v r.
         bind (index U i) (\<lambda>ui.
         bind (index U j) (\<lambda>uj.
           Set r i j (flog (fdiv v (fmul ui uj))))))))"


section \<open>Keyword ranking\<close>

subsection \<open>Sorting a slice\<close>

text \<open>
  \<open>sort.Slice\<close> on a short slice is an insertion sort: each element in turn is swapped
  towards the front while it is less than its predecessor.  \<open>sift\<close> inserts one element
  into the part sorted so far, which it gets and returns back to front.
\<close>

fun sift :: "('a \<Rightarrow> 'a \<Rightarrow> bool) \<Rightarrow> 'a \<Rightarrow> 'a list \<Rightarrow> 'a list" where
  "sift lt x [] = [x]"
| "sift lt x (y # ys) = (if lt x y then y # sift lt x ys else x # y # ys)"

definition sort_slice :: "('a \<Rightarrow> 'a \<Rightarrow> bool) \<Rightarrow> 'a list \<Rightarrow> 'a list" where
  "sort_slice lt xs = rev (fold (sift lt) xs [])"

text \<open>The same sort with a comparison that can panic.\<close>

fun siftM :: "('a \<Rightarrow> 'a \<Rightarrow> panic + bool) \<Rightarrow> 'a \<Rightarrow> 'a list \<Rightarrow> panic + 'a list" where
  "siftM lt x [] = Inr [x]"
| "siftM lt x (y # ys) =
     bind (lt x y) (\<lambda>b. if b then bind (siftM lt x ys) (\<lambda>zs. Inr (y # zs))
                           else Inr (x # y # ys))"

definition sort_sliceM :: "('a \<Rightarrow> 'a \<Rightarrow> panic + bool) \<Rightarrow> 'a list \<Rightarrow> panic + 'a list" where
  "sort_sliceM lt xs = bind (foldM (siftM lt) xs []) (\<lambda>ys. Inr (rev ys))"

subsection \<open>Incidence\<close>

type_synonym Incidency = "(string, float64) gomap"

text \<open>\<open>I[t]\<close> read as a value: the zero value when the term has no entry.\<close>

definition score :: "Incidency \<Rightarrow> string \<Rightarrow> float64" where
  "score I t = (case map_get I t of None \<Rightarrow> Fin 0 | Some v \<Rightarrow> v)"

text \<open>
  \<open>Incidency.Of\<close> first rebinds its receiver to a fresh map, so all its work goes to that
  local map: \<open>Of_local\<close> is the map the body has built when it returns, and \<open>Of\<close> is what
  the caller's map is after the call (unchanged).  \<open>row_sums\<close> is the first loop of the
  body and \<open>invert_scores\<close> the second, in which \<open>v\<close> is the value the entry had when the
  iteration reached it.
\<close>

definition row_sums :: "CSR \<Rightarrow> (string \<times> int) list \<Rightarrow> Incidency \<Rightarrow> panic + Incidency" where
  "row_sums S es I =
     foldM (\<lambda>(t, i) I.
              bind (DoRowNonZero S i (\<lambda>i j v sigma. fadd sigma v) (Fin 0)) (\<lambda>sigma.
                map_set I t (fadd (score I t) sigma)))
       es I"

definition invert_scores :: "Incidency \<Rightarrow> panic + Incidency" where
  "invert_scores I =
     foldM (\<lambda>t I. let v = score I t in
                  bind (map_set I t (fdiv (score I t) (float64_of_int (map_len I)))) (\<lambda>I.
                    map_set I t (fdiv (Fin 1) v)))
       (map fst (entries I)) I"

definition Of_local :: "Doc \<Rightarrow> int \<Rightarrow> panic + Incidency" where
  "Of_local D maxJuxt =
     bind (PMIs D maxJuxt) (\<lambda>S.
     bind (row_sums S (entries (TokenIndices D)) (Some [])) invert_scores)"

definition Of :: "Incidency \<Rightarrow> Doc \<Rightarrow> int \<Rightarrow> panic + Incidency" where
  "Of I D maxJuxt = bind (Of_local D maxJuxt) (\<lambda>_. Inr I)"

text \<open>
  \<open>Keywords\<close>.  The count is a pointer: \<open>None\<close> is nil.  The slice expression \<open>rtn[:k]\<close> is
  bounded by the capacity, which is at least the length, and \<open>k\<close> is below the length
  whenever it is not negative.
\<close>

definition Keywords :: "Incidency \<Rightarrow> int option \<Rightarrow> panic + Text" where
  "Keywords I n =
     (let rtn = sort_slice (\<lambda>a b. flt (score I a) (score I b)) (map fst (entries I))
      in case n of
           None \<Rightarrow> Inr rtn
         | Some k \<Rightarrow> bind (go_rem k (map_len I)) (\<lambda>k. slice_to rtn k))"

section \<open>Embedding mappings\<close>

text \<open>A \<open>mat.Vector\<close> is the list of its entries; the vector of an absent term is nil (\<open>None\<close>).\<close>

type_synonym VecMapping = "(string, float64 list) gomap"

text \<open>
  Modelled from the spec: \<open>mat.Dot\<close> belongs to an imported package whose source is not in
  the repository.  It is the dot product of the two vectors; it fails when a term is absent
  from the mapping (the method call on the nil vector panics) and when the lengths differ.
\<close>

definition Dot :: "float64 list option \<Rightarrow> float64 list option \<Rightarrow> panic + float64" where
  "Dot a b =
     (case (a, b) of
        (Some xs, Some ys) \<Rightarrow>
          if length xs = length ys
          then Inr (fold (\<lambda>(x, y) s. fadd s (fmul x y)) (zip xs ys) (Fin 0))
          else Inl ShapeMismatch
      | _ \<Rightarrow> Inl NilDereference)"

definition CosSim :: "VecMapping \<Rightarrow> string \<Rightarrow> string \<Rightarrow> panic + float64" where
  "CosSim m a b = Dot (map_get m a) (map_get m b)"

definition Vocab :: "VecMapping \<Rightarrow> Text" where
  "Vocab m = map fst (entries m)"

text \<open>
  \<open>Constellation\<close> (named \<open>Mapping.Constellation\<close> with \<open>Similarity\<close> in the second source
  file, with the same body).  It also stores the reduced count through \<open>n\<close>; the model
  returns the slice only.
\<close>

definition Constellation :: "VecMapping \<Rightarrow> string \<Rightarrow> int option \<Rightarrow> panic + Text" where
  "Constellation m t n =
     bind (case n of None \<Rightarrow> Inr None
           | Some k \<Rightarrow> bind (go_rem k (map_len m)) (\<lambda>k. Inr (Some k))) (\<lambda>n.
     bind (sort_sliceM (\<lambda>a b. bind (CosSim m t a) (\<lambda>x. bind (CosSim m t b) (\<lambda>y. Inr (flt x y))))
             (Vocab m)) (\<lambda>V.
       case n of None \<Rightarrow> Inl NilDereference | Some k \<Rightarrow> slice_to V k))"

section \<open>Adjacency across corpora\<close>

type_synonym Adjacency = "(string, float64) gomap"

text \<open>
  \<open>append(M[:p], M[p+1:]...)\<close> has room in the array of \<open>M\<close>, so it moves the elements after
  position \<open>p\<close> one place down in that array: \<open>others\<close> is the slice it returns and
  \<open>after_append\<close> is what \<open>M\<close> holds afterwards.
\<close>

definition others :: "nat \<Rightarrow> 'a list \<Rightarrow> 'a list" where
  "others p M = take p M @ drop (Suc p) M"

definition after_append :: "nat \<Rightarrow> 'a list \<Rightarrow> 'a list" where
  "after_append p M = others p M @ [last M]"

text \<open>The first pair of loops: the terms that every other mapping has too.\<close>

definition shared_step :: "nat \<Rightarrow> string \<Rightarrow> VecMapping list \<times> string list \<Rightarrow> VecMapping list \<times> string list" where
  "shared_step p k = (\<lambda>(M, V).
     let Qs = others p M;
         ok = list_all (\<lambda>Q. map_get Q k \<noteq> None) Qs
     in (after_append p M, if ok \<and> k \<notin> set V then V @ [k] else V))"

definition shared_vocab :: "VecMapping list \<Rightarrow> VecMapping list \<times> string list" where
  "shared_vocab M =
     fold (\<lambda>p (M, V). fold (shared_step p) (map fst (entries (M ! p))) (M, V))
       [0..<length M] (M, [])"

text \<open>
  The body of the loop over \<open>Qs\<close>, for the term \<open>k\<close> of the mapping \<open>P\<close>; then the body of
  the loop over the shared terms, where \<open>P\<close> is the element that \<open>M\<close> held at position \<open>p\<close>
  when the iteration for \<open>p\<close> began.
\<close>

definition running_mean :: "VecMapping \<Rightarrow> string list \<Rightarrow> string \<Rightarrow> nat \<times> VecMapping \<Rightarrow> Adjacency \<Rightarrow> panic + Adjacency" where
  "running_mean P V k = (\<lambda>(q, Q) A.
     bind (foldM (\<lambda>t sigma.
                    bind (Dot (map_get P k) (map_get Q k)) (\<lambda>c.
                    bind (Dot (map_get P t) (map_get Q t)) (\<lambda>d.
                      Inr (fadd sigma (fdiv c d)))))
             V (Fin 0)) (\<lambda>sigma.
       let n = float64_of_int (int q);
           sigma = fdiv sigma (float64_of_int (int (length V)))
       in map_set A k (fdiv (fadd (fmul (score A k) n) sigma) n)))"

definition adjacency_step :: "VecMapping \<Rightarrow> nat \<Rightarrow> string list \<Rightarrow> string \<Rightarrow> VecMapping list \<times> Adjacency \<Rightarrow> panic + VecMapping list \<times> Adjacency" where
  "adjacency_step P p V k = (\<lambda>(M, A).
     bind (map_set A k (Fin 0)) (\<lambda>A.
       let Qs = others p M in
       bind (foldM (running_mean P V k) (zip [0..<length Qs] Qs) A) (\<lambda>A.
         Inr (after_append p M, A))))"

text \<open>
  \<open>Adjacency.Between\<close> rebinds its receiver like \<open>Incidency.Of\<close>: \<open>Between_local\<close> is the map
  the body has built, \<open>Between\<close> the caller's map after the call.  The size hint \<open>s\<close> has no
  effect but the read of \<open>M[0]\<close>.
\<close>

definition Between_local :: "VecMapping list \<Rightarrow> panic + Adjacency" where
  "Between_local M =
     (if M = [] then Inl IndexOutOfRange
      else case shared_vocab M of (M1, V) \<Rightarrow>
        bind (foldM (\<lambda>p (M, A). foldM (adjacency_step (M ! p) p V) V (M, A))
                [0..<length M] (M1, Some []))
          (\<lambda>(M2, A). Inr A))"

definition Between :: "Adjacency \<Rightarrow> VecMapping list \<Rightarrow> panic + Adjacency" where
  "Between A M = bind (Between_local M) (\<lambda>_. Inr A)"

definition DocSim :: "Adjacency \<Rightarrow> float64" where
  "DocSim A = fdiv (fold (\<lambda>(k, x) sigma. fadd sigma x) (entries A) (Fin 0))
                (float64_of_int (map_len A))"

section \<open>Notions used in the statements and proofs\<close>

text \<open>The part sorted so far is kept back to front, so it is descending.\<close>

definition descending :: "('a \<Rightarrow> 'a \<Rightarrow> bool) \<Rightarrow> 'a list \<Rightarrow> bool" where
  "descending lt ys = sorted_wrt (\<lambda>a b. \<not> lt a b) ys"

text \<open>What a comparison must satisfy on the elements for the sort to order them.\<close>

definition weak_order_on :: "'a set \<Rightarrow> ('a \<Rightarrow> 'a \<Rightarrow> bool) \<Rightarrow> bool" where
  "weak_order_on A lt =
     ((\<forall>a\<in>A. \<forall>b\<in>A. lt a b \<longrightarrow> \<not> lt b a) \<and>
      (\<forall>a\<in>A. \<forall>b\<in>A. \<forall>c\<in>A. \<not> lt a b \<longrightarrow> \<not> lt b c \<longrightarrow> \<not> lt a c))"

text \<open>The similarity of two terms as a value, NaN standing for a failed dot product.\<close>

definition similarity :: "VecMapping \<Rightarrow> string \<Rightarrow> string \<Rightarrow> float64" where
  "similarity m t a = (case CosSim m t a of Inl e \<Rightarrow> NaN | Inr x \<Rightarrow> x)"

text \<open>
  What the loops of \<open>SkipgramPs\<close> keep: the matrix is square over the vocabulary and every
  non-zero cell lies within it.
\<close>

definition supported :: "Doc \<Rightarrow> CSR \<Rightarrow> bool" where
  "supported D m =
     (rows m = VocabLength D \<and> cols m = VocabLength D \<and>
      (\<forall>r c. cells m (r, c) \<noteq> Fin 0 \<longrightarrow> in_range m r c))"





text \<open>
  The incidence score in the words of the spec: the sum of the non-zero PMI values in the
  row of the term, divided by the vocabulary size, then inverted.
\<close>

definition row_sum :: "CSR \<Rightarrow> int \<Rightarrow> float64" where
  "row_sum S i = fold (\<lambda>j sigma. fadd sigma (cells S (i, j))) (row_nonzero S i) (Fin 0)"

definition incidence_spec :: "CSR \<Rightarrow> int \<Rightarrow> int \<Rightarrow> float64" where
  "incidence_spec S i n = fdiv (Fin 1) (fdiv (row_sum S i) (float64_of_int n))"

section \<open>Evaluation\<close>

text \<open>A code equation for \<open>overflow\<close> that decides small values without the threshold.\<close>

lemma overflow_code [code]:
  "overflow x = (if - 4294967296 < x \<and> x < 4294967296 then Fin x
                 else if overflow_threshold \<le> x then PInf
                 else if x \<le> - overflow_threshold then NInf else Fin x)"
  by (simp add: overflow_def overflow_threshold_def)

lemma overflow_threshold_eq: "overflow_threshold = 2 ^ 1024 - 2 ^ 970"
  by (simp add: overflow_threshold_def)


lemma overflow_small: "- 4294967296 < x \<Longrightarrow> x < 4294967296 \<Longrightarrow> overflow x = Fin x"
  by (simp add: overflow_code)

section \<open>Document construction\<close>

text \<open>
  Claim C3.  For every token sequence with at least one token, \<open>MkDoc\<close> assigns into the nil
  \<open>TokenIndices\<close> map of its zero-valued result and panics.  Only the empty sequence
  returns, and the document it returns has vocabulary size 0; so no document with a
  non-empty vocabulary is ever constructed.
\<close>

theorem MkDoc_panics_unless_empty:
  "(toks \<noteq> [] \<longrightarrow> MkDoc toks = Inl AssignToNilMap) \<and>
   (toks = [] \<longrightarrow> MkDoc toks = Inr \<lparr>Tokens = [], TokenIndices = None\<rparr>) \<and>
   (\<forall>D. MkDoc toks = Inr D \<longrightarrow> toks = [] \<and> VocabLength D = 0)"
proof -
  have nonempty: "MkDoc toks = Inl AssignToNilMap" if "toks \<noteq> []"
  proof -
    from that obtain t ts where "toks = t # ts" by (cases toks) auto
    then show ?thesis
      by (simp add: MkDoc_def map_get_def map_set_def entries_def)
  qed
  have empty: "MkDoc [] = Inr \<lparr>Tokens = [], TokenIndices = None\<rparr>"
    by (simp add: MkDoc_def)
  have "toks = [] \<and> VocabLength D = 0" if "MkDoc toks = Inr D" for D
  proof (cases "toks = []")
    case True
    with that empty show ?thesis
      by (auto simp: VocabLength_def map_len_def entries_def)
  next
    case False
    with nonempty that show ?thesis by simp
  qed
  with nonempty empty show ?thesis by blast
qed

theorem MkDoc_panics_unless_empty_witness:
  "MkDoc [''the'', ''cat'', ''the''] = Inl AssignToNilMap \<and>
   MkDoc [] = Inr \<lparr>Tokens = [], TokenIndices = None\<rparr> \<and>
   VocabLength \<lparr>Tokens = [], TokenIndices = None\<rparr> = 0"
  using MkDoc_panics_unless_empty [of "[''the'', ''cat'', ''the'']"]
    MkDoc_panics_unless_empty [of "[]"]
  by simp

section \<open>Unigram probabilities\<close>

text \<open>
  Claim C2.  The claim: for a document with at least one token, entry \<open>id\<close> of \<open>UnigramPs\<close> is
  the number of occurrences of the term divided by the number of tokens, and the entries
  sum to 1.  The code divides by \<open>len(rtn)\<close>, the vocabulary size: for the tokens
  \<open>a a\<close> with the single id 0 the result is the one entry \<open>2 / 1 = 2\<close>, where the claim
  says \<open>2 / 2 = 1\<close>.
\<close>

theorem UnigramPs_divides_by_vocabulary:
  "UnigramPs \<lparr>Tokens = [''a'', ''a''], TokenIndices = Some [(''a'', 0)]\<rparr> = Inr [Fin 2]"
  by code_simp


text \<open>Loops keep what each of their steps keeps.\<close>

lemma foldM_invariant:
  assumes "foldM f xs s = Inr s'" and "P s"
    and "\<And>x s s'. x \<in> set xs \<Longrightarrow> P s \<Longrightarrow> f x s = Inr s' \<Longrightarrow> P s'"
  shows "P s'"
  using assms
proof (induction xs arbitrary: s)
  case Nil
  then show ?case by simp
next
  case (Cons x xs)
  from Cons.prems(1) obtain s1 where s1: "f x s = Inr s1" "foldM f xs s1 = Inr s'"
    by (auto split: sum.splits)
  have "P s1" using Cons.prems(2,3) s1(1) by auto
  with Cons.IH [OF s1(2)] Cons.prems(3) show ?case by auto
qed


text \<open>What \<open>UnigramPs\<close> does guarantee when it returns: one entry per vocabulary id.\<close>

lemma incr_at_length: "incr_at xs i = Inr ys \<Longrightarrow> length ys = length xs"
  by (auto simp: incr_at_def split: if_splits)

lemma VocabLength_nonneg: "0 \<le> VocabLength D"
  by (simp add: VocabLength_def map_len_def)

lemma UnigramPs_length:
  assumes "UnigramPs D = Inr U"
  shows "int (length U) = VocabLength D"
proof -
  let ?n = "nat (VocabLength D)"
  let ?loop = "foldM (\<lambda>t rtn. incr_at rtn (token_id D t)) (Tokens D) (replicate ?n (Fin 0))"
  from assms obtain rtn where rtn: "?loop = Inr rtn"
    by (cases ?loop) (simp_all add: UnigramPs_def bind_def)
  with assms have U: "U = map (\<lambda>x. fdiv x (float64_of_int (int (length rtn)))) rtn"
    by (simp add: UnigramPs_def bind_def)
  have "length rtn = ?n"
  proof (rule foldM_invariant [where P = "\<lambda>xs. length xs = ?n", OF rtn])
    show "length (replicate ?n (Fin 0 :: float64)) = ?n" by simp
  next
    fix t xs ys
    assume "length xs = ?n" "incr_at xs (token_id D t) = Inr ys"
    then show "length ys = ?n" using incr_at_length by fastforce
  qed
  with U show ?thesis using VocabLength_nonneg [of D] by simp
qed

section \<open>Skip-gram co-occurrence\<close>

text \<open>
  Claim C1.  The claim: every focus position and every offset \<open>j\<close> in \<open>[0, maxJuxt)\<close> adds the
  weight \<open>1 / max(j, 1)\<close>, the offset 0 being skipped, and the non-zero cells are then
  divided by the number of tokens.  The code does not skip \<open>j = 0\<close>: it adds \<open>1 / |0|\<close>, which
  is \<open>+Inf\<close>, to the diagonal cell of the focus token.  With four distinct tokens and
  window 1 the only focus position is 1, and cell \<open>(1, 1)\<close> ends as \<open>+Inf\<close>, neither
  \<open>2 / 4\<close> (weight 1 twice) nor 0 (offset skipped).
\<close>

theorem SkipgramPs_zero_offset_infinite:
  "bind (SkipgramPs \<lparr>Tokens = [''a'', ''b'', ''c'', ''d''],
           TokenIndices = Some [(''a'', 0), (''b'', 1), (''c'', 2), (''d'', 3)]\<rparr> 1)
     (\<lambda>M. At M 1 1) = Inr PInf"
  by code_simp

lemma bind_Inr_iff: "bind m f = Inr y \<longleftrightarrow> (\<exists>x. m = Inr x \<and> f x = Inr y)"
  by (cases m) (simp_all add: bind_def)

lemma set_nonzero:
  "set (nonzero m) = {(i, j). in_range m i j \<and> cells m (i, j) \<noteq> Fin 0}"
  by (auto simp: nonzero_def in_range_def)

lemma distinct_nonzero: "distinct (nonzero m)"
  by (simp add: nonzero_def distinct_product)

lemma foldM_cellwise:
  assumes "\<And>i j v s. (i, j) \<in> set cs \<Longrightarrow> rows s = r \<Longrightarrow> cols s = c \<Longrightarrow>
             fn i j v s = Inr (s\<lparr>cells := (cells s)((i, j) := g i j v)\<rparr>)"
    and "distinct cs" and "rows s = r" and "cols s = c"
  shows "foldM (\<lambda>(i, j) s. fn i j (cells s (i, j)) s) cs s =
           Inr (s\<lparr>cells := (\<lambda>p. if p \<in> set cs then g (fst p) (snd p) (cells s p) else cells s p)\<rparr>)"
  using assms
proof (induction cs arbitrary: s)
  case Nil
  then show ?case by simp
next
  case (Cons p cs)
  obtain i j where p: "p = (i, j)" by (cases p)
  let ?s1 = "s\<lparr>cells := (cells s)((i, j) := g i j (cells s (i, j)))\<rparr>"
  have step: "fn i j (cells s (i, j)) s = Inr ?s1"
    by (rule Cons.prems(1)) (simp_all add: p Cons.prems(3,4))
  have "foldM (\<lambda>(i, j) s. fn i j (cells s (i, j)) s) cs ?s1 =
          Inr (?s1\<lparr>cells := (\<lambda>q. if q \<in> set cs then g (fst q) (snd q) (cells ?s1 q) else cells ?s1 q)\<rparr>)"
    using Cons.prems by (intro Cons.IH) auto
  moreover have "(\<lambda>q. if q \<in> set cs then g (fst q) (snd q) (cells ?s1 q) else cells ?s1 q)
      = (\<lambda>q. if q \<in> set (p # cs) then g (fst q) (snd q) (cells s q) else cells s q)"
    using Cons.prems(2) p by (auto simp: fun_eq_iff)
  ultimately show ?case using step p by simp
qed

lemma DoNonZero_cellwise:
  assumes "\<And>i j v s. in_range m i j \<Longrightarrow> rows s = rows m \<Longrightarrow> cols s = cols m \<Longrightarrow>
             fn i j v s = Inr (s\<lparr>cells := (cells s)((i, j) := g i j v)\<rparr>)"
  shows "DoNonZero m fn =
           Inr (m\<lparr>cells := (\<lambda>p. if p \<in> set (nonzero m) then g (fst p) (snd p) (cells m p) else cells m p)\<rparr>)"
  unfolding DoNonZero_def
  by (rule foldM_cellwise [where r = "rows m" and c = "cols m"])
     (auto simp: assms set_nonzero distinct_nonzero)

lemma Set_cellwise:
  "in_range m i j \<Longrightarrow> rows s = rows m \<Longrightarrow> cols s = cols m \<Longrightarrow>
     Set s i j v = Inr (s\<lparr>cells := (cells s)((i, j) := v)\<rparr>)"
  by (simp add: Set_def in_range_def)

lemma SkipgramPs_cells:
  assumes "SkipgramPs D maxJuxt = Inr M"
  shows "\<exists>C. cooccurrences D maxJuxt = Inr C \<and> rows M = rows C \<and> cols M = cols C \<and>
           (\<forall>p. cells M p = (if p \<in> set (nonzero C)
                              then fdiv (cells C p) (float64_of_int (int (length (Tokens D))))
                              else cells C p))"
proof -
  from assms obtain C where C: "cooccurrences D maxJuxt = Inr C"
    and M: "DoNonZero C (\<lambda>i j v r. Set r i j (fdiv v (float64_of_int (int (length (Tokens D)))))) = Inr M"
    by (auto simp: SkipgramPs_def bind_Inr_iff)
  have "DoNonZero C (\<lambda>i j v r. Set r i j (fdiv v (float64_of_int (int (length (Tokens D)))))) =
      Inr (C\<lparr>cells := (\<lambda>p. if p \<in> set (nonzero C)
             then fdiv (cells C p) (float64_of_int (int (length (Tokens D)))) else cells C p)\<rparr>)"
    by (rule DoNonZero_cellwise) (simp add: Set_cellwise)
  with M C show ?thesis by auto
qed

lemma accumulate_cells:
  assumes "accumulate D j a b m = Inr m'"
  shows "rows m' = rows m" and "cols m' = cols m"
    and "in_range m (token_id D a) (token_id D b)"
    and "cells m' = (cells m)((token_id D a, token_id D b) :=
           fadd (cells m (token_id D a, token_id D b)) (fdiv (Fin 1) (fabs (float64_of_int j))))"
  using assms
  by (auto simp: accumulate_def Let_def At_def Set_def bind_def split: if_splits)


lemma juxt_step_Inr:
  assumes "juxt_step D i j m = Inr m'"
  shows "\<exists>a b1 b2 m1. index (Tokens D) i = Inr a \<and> index (Tokens D) (i + j) = Inr b1 \<and>
           index (Tokens D) (i - j) = Inr b2 \<and>
           accumulate D j a b1 m = Inr m1 \<and> accumulate D j a b2 m1 = Inr m'"
proof -
  from assms obtain a where a: "index (Tokens D) i = Inr a"
    by (cases "index (Tokens D) i") (simp_all add: juxt_step_def bind_def)
  from assms a obtain b1 where b1: "index (Tokens D) (i + j) = Inr b1"
    by (cases "index (Tokens D) (i + j)") (simp_all add: juxt_step_def bind_def)
  from assms a b1 obtain b2 where b2: "index (Tokens D) (i - j) = Inr b2"
    by (cases "index (Tokens D) (i - j)") (simp_all add: juxt_step_def bind_def)
  from assms a b1 b2 have f: "foldM (accumulate D j a) [b1, b2] m = Inr m'"
    by (simp add: juxt_step_def bind_def)
  then obtain m1 where m1: "accumulate D j a b1 m = Inr m1"
    by (cases "accumulate D j a b1 m") simp_all
  with f have "accumulate D j a b2 m1 = Inr m'"
    by (cases "accumulate D j a b2 m1") simp_all
  with a b1 b2 m1 show ?thesis by blast
qed

text \<open>The matrix stays square over the vocabulary, with its non-zero cells inside.\<close>

lemma accumulate_other:
  "accumulate D j a b m = Inr m' \<Longrightarrow> p \<noteq> (token_id D a, token_id D b) \<Longrightarrow>
     cells m' p = cells m p"
  by (simp add: accumulate_cells(4))


lemma accumulate_supported:
  assumes "supported D m" and "accumulate D j a b m = Inr m'"
  shows "supported D m'"
proof -
  note c = accumulate_cells [OF assms(2)]
  have "in_range m' r c" if "cells m' (r, c) \<noteq> Fin 0" for r c
  proof (cases "(r, c) = (token_id D a, token_id D b)")
    case True
    with c(1,2,3) show ?thesis by (simp add: in_range_def)
  next
    case False
    from accumulate_other [OF assms(2) this] that have "cells m (r, c) \<noteq> Fin 0" by simp
    with assms(1) c(1,2) show ?thesis by (auto simp: supported_def in_range_def)
  qed
  with assms(1) c(1,2) show ?thesis by (simp add: supported_def)
qed

lemma juxt_step_supported:
  assumes "supported D m" and "juxt_step D i j m = Inr m'"
  shows "supported D m'"
proof -
  from juxt_step_Inr [OF assms(2)] obtain a b1 b2 m1 where
    "accumulate D j a b1 m = Inr m1" "accumulate D j a b2 m1 = Inr m'" by blast
  with assms(1) show ?thesis by (blast intro: accumulate_supported)
qed

lemma cooccurrences_supported:
  assumes "cooccurrences D maxJuxt = Inr C"
  shows "supported D C"
  using assms [unfolded cooccurrences_def]
proof (rule foldM_invariant)
  show "supported D (NewCSR (VocabLength D) (VocabLength D))"
    by (simp add: supported_def NewCSR_def)
next
  fix i s s'
  assume s: "supported D s" and "foldM (juxt_step D i) [0..maxJuxt - 1] s = Inr s'"
  from this(2) s show "supported D s'"
    by (rule foldM_invariant) (rule juxt_step_supported)
qed

lemma supported_nonzero:
  assumes "supported D m"
  shows "p \<in> set (nonzero m) \<longleftrightarrow> cells m p \<noteq> Fin 0"
proof -
  obtain r c where p: "p = (r, c)" by (cases p)
  show ?thesis using assms unfolding supported_def p set_nonzero by auto
qed

lemma SkipgramPs_supported:
  assumes "SkipgramPs D maxJuxt = Inr S"
  shows "supported D S"
proof -
  from SkipgramPs_cells [OF assms] obtain C where C: "cooccurrences D maxJuxt = Inr C"
    and dims: "rows S = rows C" "cols S = cols C"
    and cells: "\<And>p. cells S p = (if p \<in> set (nonzero C)
                  then fdiv (cells C p) (float64_of_int (int (length (Tokens D)))) else cells C p)"
    by blast
  have okC: "supported D C" by (rule cooccurrences_supported [OF C])
  have "in_range S r c" if "cells S (r, c) \<noteq> Fin 0" for r c
  proof -
    from that cells [of "(r, c)"] have "cells C (r, c) \<noteq> Fin 0"
      using supported_nonzero [OF okC, of "(r, c)"] by (auto split: if_splits)
    with okC dims show ?thesis by (auto simp: supported_def in_range_def)
  qed
  with okC dims show ?thesis by (auto simp: supported_def)
qed
























section \<open>Pointwise mutual information\<close>

lemma index_nth: "0 \<le> i \<Longrightarrow> i < int (length xs) \<Longrightarrow> index xs i = Inr (xs ! nat i)"
  by (simp add: index_def)

lemma PMIs_cells:
  assumes U: "UnigramPs D = Inr U" and S: "SkipgramPs D maxJuxt = Inr S"
  shows "PMIs D maxJuxt =
           Inr (S\<lparr>cells := (\<lambda>p. if cells S p \<noteq> Fin 0
                                then flog (fdiv (cells S p) (fmul (U ! nat (fst p)) (U ! nat (snd p))))
                                else cells S p)\<rparr>)"
proof -
  let ?fn = "\<lambda>i j v r. bind (index U i) (\<lambda>ui. bind (index U j) (\<lambda>uj.
               Set r i j (flog (fdiv v (fmul ui uj)))))"
  let ?g = "\<lambda>i j v. flog (fdiv v (fmul (U ! nat i) (U ! nat j)))"
  have ok: "supported D S" by (rule SkipgramPs_supported [OF S])
  then have dims: "rows S = VocabLength D" "cols S = VocabLength D"
    unfolding supported_def by blast+
  have len: "int (length U) = VocabLength D" by (rule UnigramPs_length [OF U])
  have "DoNonZero S ?fn =
          Inr (S\<lparr>cells := (\<lambda>p. if p \<in> set (nonzero S) then ?g (fst p) (snd p) (cells S p) else cells S p)\<rparr>)"
  proof (rule DoNonZero_cellwise)
    fix i j v and s :: CSR
    assume r: "in_range S i j" and d: "rows s = rows S" "cols s = cols S"
    from r dims len have "index U i = Inr (U ! nat i)" "index U j = Inr (U ! nat j)"
      by (simp_all add: in_range_def index_nth)
    then show "?fn i j v s = Inr (s\<lparr>cells := (cells s)((i, j) := ?g i j v)\<rparr>)"
      using Set_cellwise [OF r d] by (simp add: bind_def)
  qed
  moreover have "(\<lambda>p. if p \<in> set (nonzero S) then ?g (fst p) (snd p) (cells S p) else cells S p)
      = (\<lambda>p. if cells S p \<noteq> Fin 0 then ?g (fst p) (snd p) (cells S p) else cells S p)"
    using supported_nonzero [OF ok] by (simp add: fun_eq_iff)
  ultimately show ?thesis using U S by (simp add: PMIs_def bind_def)
qed


text \<open>
  Claim C4.  For every document and window for which the unigram vector \<open>U\<close> and the
  co-occurrence matrix \<open>S\<close> are computed, \<open>PMIs\<close> returns a matrix of the same dimensions in
  which each non-zero cell \<open>(i, j, v)\<close> of \<open>S\<close> holds \<open>log (v / (U[i] * U[j]))\<close> and every other
  cell is as in \<open>S\<close>; so the non-zero pattern of the PMI matrix is a subset of that of \<open>S\<close>.
\<close>

theorem PMIs_rewrites_nonzero_cells:
  assumes "UnigramPs D = Inr U" and "SkipgramPs D maxJuxt = Inr S"
  shows "\<exists>P. PMIs D maxJuxt = Inr P \<and> rows P = rows S \<and> cols P = cols S \<and>
           (\<forall>i j. cells P (i, j) =
              (if cells S (i, j) \<noteq> Fin 0
               then flog (fdiv (cells S (i, j)) (fmul (U ! nat i) (U ! nat j)))
               else cells S (i, j))) \<and>
           {p. cells P p \<noteq> Fin 0} \<subseteq> {p. cells S p \<noteq> Fin 0}"
  using PMIs_cells [OF assms] by auto


theorem PMIs_rewrites_nonzero_cells_witness:
  "\<exists>P. PMIs \<lparr>Tokens = [''a'', ''b'', ''c'', ''d'', ''e'', ''f''],
           TokenIndices = Some [(''a'', 0), (''b'', 1), (''c'', 2), (''d'', 3), (''e'', 4), (''f'', 5)]\<rparr> 2 = Inr P \<and>
        cells P (2, 3) = Fin (ln 6) \<and> cells P (3, 2) = Fin 0 \<and> cells P (2, 2) = PInf"
proof -
  let ?D = "\<lparr>Tokens = [''a'', ''b'', ''c'', ''d'', ''e'', ''f''],
           TokenIndices = Some [(''a'', 0), (''b'', 1), (''c'', 2), (''d'', 3), (''e'', 4), (''f'', 5)]\<rparr>"
  have "bind (UnigramPs ?D) (\<lambda>U. Inr (U ! 2, U ! 3)) = Inr (Fin (1 / 6), Fin (1 / 6))"
    by code_simp
  then obtain U where U: "UnigramPs ?D = Inr U" "U ! 2 = Fin (1 / 6)" "U ! 3 = Fin (1 / 6)"
    by (auto simp: bind_Inr_iff)
  have "bind (SkipgramPs ?D 2) (\<lambda>M. Inr (cells M (2, 3), cells M (3, 2), cells M (2, 2)))
          = Inr (Fin (1 / 6), Fin 0, PInf)"
    by code_simp
  then obtain S where S: "SkipgramPs ?D 2 = Inr S" "cells S (2, 3) = Fin (1 / 6)"
      "cells S (3, 2) = Fin 0" "cells S (2, 2) = PInf"
    by (auto simp: bind_Inr_iff)
  from PMIs_rewrites_nonzero_cells [OF U(1) S(1)] obtain P where
    P: "PMIs ?D 2 = Inr P"
      "\<forall>i j. cells P (i, j) =
              (if cells S (i, j) \<noteq> Fin 0
               then flog (fdiv (cells S (i, j)) (fmul (U ! nat i) (U ! nat j)))
               else cells S (i, j))"
    by blast
  have "cells P (2, 3) = Fin (ln 6)" "cells P (3, 2) = Fin 0" "cells P (2, 2) = PInf"
    using P(2) U(2,3) S(2,3,4) by (simp_all add: overflow_small)
  with P(1) show ?thesis by blast
qed

section \<open>Keywords\<close>

text \<open>Sorting keeps the elements and orders them when the comparison is a weak order.\<close>

lemma set_sift: "set (sift lt x ys) = insert x (set ys)"
  by (induction ys) auto

lemma length_sift: "length (sift lt x ys) = Suc (length ys)"
  by (induction ys) auto

lemma distinct_sift: "distinct ys \<Longrightarrow> x \<notin> set ys \<Longrightarrow> distinct (sift lt x ys)"
  by (induction ys) (auto simp: set_sift)

lemma set_fold_sift: "set (fold (sift lt) xs acc) = set xs \<union> set acc"
  by (induction xs arbitrary: acc) (auto simp: set_sift)

lemma length_fold_sift: "length (fold (sift lt) xs acc) = length xs + length acc"
  by (induction xs arbitrary: acc) (auto simp: length_sift)

lemma distinct_fold_sift:
  "distinct xs \<Longrightarrow> distinct acc \<Longrightarrow> set xs \<inter> set acc = {} \<Longrightarrow> distinct (fold (sift lt) xs acc)"
  by (induction xs arbitrary: acc) (auto simp: distinct_sift set_sift)

lemma weak_order_onD:
  assumes "weak_order_on A lt"
  shows "\<And>a b. a \<in> A \<Longrightarrow> b \<in> A \<Longrightarrow> lt a b \<Longrightarrow> \<not> lt b a"
    and "\<And>a b c. a \<in> A \<Longrightarrow> b \<in> A \<Longrightarrow> c \<in> A \<Longrightarrow> \<not> lt a b \<Longrightarrow> \<not> lt b c \<Longrightarrow> \<not> lt a c"
  using assms unfolding weak_order_on_def by blast+

lemma descending_sift:
  assumes "weak_order_on A lt" "x \<in> A" "set ys \<subseteq> A" "descending lt ys"
  shows "descending lt (sift lt x ys)"
  using assms(3,4)
proof (induction ys)
  case Nil
  then show ?case by (simp add: descending_def)
next
  case (Cons y ys)
  have yA: "y \<in> A" and ysA: "set ys \<subseteq> A" using Cons.prems(1) by simp_all
  have desc: "descending lt ys" and ylt: "\<forall>z\<in>set ys. \<not> lt y z"
    using Cons.prems(2) by (simp_all add: descending_def)
  show ?case
  proof (cases "lt x y")
    case True
    have "descending lt (sift lt x ys)" using Cons.IH ysA desc by simp
    moreover have "\<not> lt y x" using True weak_order_onD(1) [OF assms(1) assms(2) yA] by simp
    ultimately show ?thesis using True ylt by (simp add: descending_def set_sift)
  next
    case False
    have "\<not> lt x z" if "z \<in> set ys" for z
    proof -
      have "z \<in> A" using that ysA by blast
      moreover have "\<not> lt y z" using ylt that by simp
      ultimately show ?thesis
        using weak_order_onD(2) [OF assms(1) assms(2) yA _ False] by blast
    qed
    with False ylt desc show ?thesis by (simp add: descending_def)
  qed
qed

lemma descending_fold_sift:
  "weak_order_on A lt \<Longrightarrow> set xs \<subseteq> A \<Longrightarrow> set acc \<subseteq> A \<Longrightarrow> descending lt acc \<Longrightarrow>
     descending lt (fold (sift lt) xs acc)"
proof (induction xs arbitrary: acc)
  case Nil
  then show ?case by simp
next
  case (Cons x xs)
  have "descending lt (sift lt x acc)"
    using Cons.prems by (intro descending_sift [of A]) auto
  moreover have "set (sift lt x acc) \<subseteq> A" using Cons.prems by (auto simp: set_sift)
  ultimately show ?case using Cons by simp
qed

lemma sorted_sort_slice:
  assumes "weak_order_on (set xs) lt"
  shows "sorted_wrt (\<lambda>a b. \<not> lt b a) (sort_slice lt xs)"
proof -
  have "descending lt (fold (sift lt) xs [])"
    using assms by (intro descending_fold_sift [of "set xs"]) (auto simp: descending_def)
  then show ?thesis
    by (simp add: sort_slice_def descending_def sorted_wrt_rev)
qed

lemma set_sort_slice: "set (sort_slice lt xs) = set xs"
  by (simp add: sort_slice_def set_fold_sift)

lemma length_sort_slice: "length (sort_slice lt xs) = length xs"
  by (simp add: sort_slice_def length_fold_sift)

lemma distinct_sort_slice: "distinct xs \<Longrightarrow> distinct (sort_slice lt xs)"
  by (simp add: sort_slice_def distinct_fold_sift)

lemma flt_asym: "flt a b \<Longrightarrow> \<not> flt b a"
  by (cases a; cases b) auto

lemma flt_negtrans: "a \<noteq> NaN \<Longrightarrow> b \<noteq> NaN \<Longrightarrow> c \<noteq> NaN \<Longrightarrow> \<not> flt a b \<Longrightarrow> \<not> flt b c \<Longrightarrow> \<not> flt a c"
  by (cases a; cases b; cases c) auto

lemma not_flt_iff_fle: "a \<noteq> NaN \<Longrightarrow> b \<noteq> NaN \<Longrightarrow> \<not> flt b a \<longleftrightarrow> fle a b"
  by (cases a; cases b) (auto simp: fle_def)

lemma weak_order_flt:
  "\<forall>a\<in>A. f a \<noteq> NaN \<Longrightarrow> weak_order_on A (\<lambda>a b. flt (f a) (f b))"
  unfolding weak_order_on_def
proof (intro conjI ballI impI)
  fix a b assume "flt (f a) (f b)"
  then show "\<not> flt (f b) (f a)" by (rule flt_asym)
next
  fix a b c
  assume "\<forall>a\<in>A. f a \<noteq> NaN" "a \<in> A" "b \<in> A" "c \<in> A" "\<not> flt (f a) (f b)" "\<not> flt (f b) (f c)"
  then show "\<not> flt (f a) (f c)" using flt_negtrans [of "f a" "f b" "f c"] by blast
qed

text \<open>
  The claim C6 as stated fails: with an empty incidence map and the count 3, \<open>Keywords\<close>
  reduces 3 modulo the size 0, which panics.
\<close>

theorem Keywords_empty_count_panics:
  "Keywords (Some []) (Some 3) = Inl IntegerDivideByZero"
  by code_simp

text \<open>
  Claim C6, amended.  For an empty corpus (an incidence map of size 0, nil or allocated),
  \<open>Keywords\<close> returns the empty sequence when the count is nil; with any non-nil count
  the reduction modulo the vocabulary size 0 panics with an integer division by zero.
\<close>

theorem Keywords_empty:
  "map_len I = 0 \<Longrightarrow>
     Keywords I None = Inr [] \<and> (\<forall>k. Keywords I (Some k) = Inl IntegerDivideByZero)"
  by (simp add: Keywords_def map_len_def sort_slice_def go_rem_def bind_def)

theorem Keywords_empty_witness:
  "map_len (None :: Incidency) = 0 \<and> Keywords None None = Inr [] \<and>
   Keywords None (Some 5) = Inl IntegerDivideByZero"
  using Keywords_empty [of None] by (simp add: map_len_def entries_def)

lemma go_rem_nonneg: "0 \<le> a \<Longrightarrow> b \<noteq> 0 \<Longrightarrow> 0 \<le> b \<Longrightarrow> go_rem a b = Inr (a mod b)"
  by (cases "a = 0") (simp_all add: go_rem_def)

lemma score_entry: "distinct (map fst (entries I)) \<Longrightarrow> (t, v) \<in> set (entries I) \<Longrightarrow> score I t = v"
  by (simp add: score_def map_get_def)

lemma sorted_prefix:
  fixes f :: "'a \<Rightarrow> float64"
  assumes d: "distinct ks" and nn: "\<forall>a\<in>set ks. f a \<noteq> NaN" and k: "0 \<le> k" "k \<le> int (length ks)"
  shows "\<exists>r rest. slice_to (sort_slice (\<lambda>a b. flt (f a) (f b)) ks) k = Inr r \<and>
           int (length r) = k \<and> set (r @ rest) = set ks \<and> distinct (r @ rest) \<and>
           sorted_wrt (\<lambda>a b. fle (f a) (f b)) (r @ rest)"
proof -
  let ?s = "sort_slice (\<lambda>a b. flt (f a) (f b)) ks"
  have "sorted_wrt (\<lambda>a b. \<not> flt (f b) (f a)) ?s"
    by (rule sorted_sort_slice [OF weak_order_flt [OF nn]])
  then have "sorted_wrt (\<lambda>a b. fle (f a) (f b)) ?s"
  proof (rule sorted_wrt_mono_rel [rotated])
    fix a b assume "a \<in> set ?s" "b \<in> set ?s" "\<not> flt (f b) (f a)"
    then show "fle (f a) (f b)"
      using nn not_flt_iff_fle [of "f a" "f b"] by (simp add: set_sort_slice)
  qed
  moreover have "slice_to ?s k = Inr (take (nat k) ?s)"
    using k by (simp add: slice_to_def length_sort_slice)
  moreover have "int (length (take (nat k) ?s)) = k"
    using k by (simp add: length_sort_slice)
  moreover have "take (nat k) ?s @ drop (nat k) ?s = ?s" by simp
  ultimately show ?thesis
    using set_sort_slice [of "\<lambda>a b. flt (f a) (f b)" ks] distinct_sort_slice [OF d, of "\<lambda>a b. flt (f a) (f b)"]
    by metis
qed

text \<open>
  The claim C7 as stated fails.  A negative count keeps its sign under \<open>%\<close>, and slicing
  with a negative bound panics; and a NaN score compares false with everything, so the
  sort leaves terms around it out of order (here \<open>a\<close> with score 2 before \<open>c\<close> with score 1).
\<close>

theorem Keywords_negative_count_panics:
  "Keywords (Some [(''a'', Fin 2), (''b'', Fin 0), (''c'', Fin 1)]) (Some (- 1)) = Inl SliceBoundsOutOfRange \<and>
   Keywords (Some [(''a'', Fin 2), (''b'', NaN), (''c'', Fin 1), (''d'', Fin 5)]) (Some 3) = Inr [''a'', ''b'', ''c'']"
  by code_simp

text \<open>
  Claim C7, amended.  For every incidence map with a non-empty vocabulary whose scores are
  not NaN and every non-negative count \<open>n\<close>, \<open>Keywords\<close> returns exactly \<open>n mod vocabSize\<close>
  terms, and they are the first terms of the whole vocabulary sorted ascending by score.
\<close>

theorem Keywords_sorted_prefix:
  assumes "wf_map I" and "entries I \<noteq> []" and "0 \<le> n"
    and "\<forall>(t, v)\<in>set (entries I). v \<noteq> NaN"
  shows "\<exists>r rest. Keywords I (Some n) = Inr r \<and>
           int (length r) = n mod map_len I \<and>
           set (r @ rest) = fst ` set (entries I) \<and> distinct (r @ rest) \<and>
           sorted_wrt (\<lambda>a b. fle (score I a) (score I b)) (r @ rest)"
proof -
  let ?ks = "map fst (entries I)"
  have d: "distinct ?ks" using assms(1) by (simp add: wf_map_def)
  have len: "0 < map_len I" using assms(2) by (simp add: map_len_def)
  have nn: "\<forall>a\<in>set ?ks. score I a \<noteq> NaN"
  proof
    fix a assume "a \<in> set ?ks"
    then obtain v where v: "(a, v) \<in> set (entries I)" by auto
    with assms(4) have "v \<noteq> NaN" by auto
    with score_entry [OF d v] show "score I a \<noteq> NaN" by simp
  qed
  have rem: "go_rem n (map_len I) = Inr (n mod map_len I)"
    using go_rem_nonneg [of n "map_len I"] assms(3) len by simp
  have k: "0 \<le> n mod map_len I" "n mod map_len I \<le> int (length ?ks)"
    using len by (simp_all add: map_len_def less_imp_le)
  from sorted_prefix [OF d nn k] rem show ?thesis
    by (simp add: Keywords_def bind_def)
qed

theorem Keywords_sorted_prefix_witness:
  "Keywords (Some [(''a'', Fin 2), (''b'', PInf), (''c'', Fin 1)]) (Some 5) = Inr [''c'', ''a''] \<and>
   (\<exists>r rest. Keywords (Some [(''a'', Fin 2), (''b'', PInf), (''c'', Fin 1)]) (Some 5) = Inr r \<and>
     int (length r) = 2 \<and> set (r @ rest) = {''a'', ''b'', ''c''} \<and> distinct (r @ rest) \<and>
     sorted_wrt (\<lambda>a b. fle (score (Some [(''a'', Fin 2), (''b'', PInf), (''c'', Fin 1)]) a)
                           (score (Some [(''a'', Fin 2), (''b'', PInf), (''c'', Fin 1)]) b)) (r @ rest))"
proof -
  let ?I = "Some [(''a'', Fin 2), (''b'', PInf), (''c'', Fin 1)] :: Incidency"
  have "Keywords ?I (Some 5) = Inr [''c'', ''a'']" by code_simp
  moreover have "\<exists>r rest. Keywords ?I (Some 5) = Inr r \<and>
     int (length r) = 2 \<and> set (r @ rest) = {''a'', ''b'', ''c''} \<and> distinct (r @ rest) \<and>
     sorted_wrt (\<lambda>a b. fle (score ?I a) (score ?I b)) (r @ rest)"
    using Keywords_sorted_prefix [of ?I 5]
    by (simp add: wf_map_def entries_def map_len_def)
  ultimately show ?thesis by blast
qed

section \<open>Incidence\<close>

lemma DoRowNonZero_sum:
  "DoRowNonZero S i (\<lambda>i j v sigma. fadd sigma v) (Fin 0) =
     (if 0 \<le> i \<and> i < rows S then Inr (row_sum S i) else Inl IndexOutOfRange)"
  by (simp add: DoRowNonZero_def row_sum_def)

lemma row_sums_returns:
  assumes "\<forall>(t, i)\<in>set es. 0 \<le> i \<and> i < rows S"
  shows "\<exists>kvs. row_sums S es (Some acc) = Inr (Some kvs)"
  using assms unfolding row_sums_def
proof (induction es arbitrary: acc)
  case Nil
  then show ?case by simp
next
  case (Cons e es)
  obtain t i where e: "e = (t, i)" by (cases e)
  with Cons.prems have "0 \<le> i" "i < rows S" by simp_all
  moreover from Cons.prems have "\<forall>(t, i)\<in>set es. 0 \<le> i \<and> i < rows S" by simp
  ultimately show ?case using Cons.IH e
    by (simp add: DoRowNonZero_sum bind_def map_set_def)
qed

lemma invert_loop_returns:
  "\<exists>kvs'. foldM (\<lambda>t I. let v = score I t in
                     bind (map_set I t (fdiv (score I t) (float64_of_int (map_len I))))
                       (\<lambda>I. map_set I t (fdiv (Fin 1) v))) ks (Some kvs) = Inr (Some kvs')"
proof (induction ks arbitrary: kvs)
  case Nil
  then show ?case by simp
next
  case (Cons k ks)
  then show ?case by (simp add: map_set_def bind_def)
qed

lemma invert_scores_returns: "\<exists>kvs'. invert_scores (Some kvs) = Inr (Some kvs')"
  unfolding invert_scores_def by (rule invert_loop_returns)

lemma Of_local_returns:
  assumes "PMIs D maxJuxt = Inr S"
    and "\<forall>(t, i)\<in>set (entries (TokenIndices D)). 0 \<le> i \<and> i < rows S"
  shows "\<exists>I. Of_local D maxJuxt = Inr I"
proof -
  from row_sums_returns [OF assms(2), of "[]"] obtain kvs where
    "row_sums S (entries (TokenIndices D)) (Some []) = Inr (Some kvs)" by blast
  moreover from invert_scores_returns [of kvs] obtain kvs' where
    "invert_scores (Some kvs) = Inr (Some kvs')" by blast
  ultimately show ?thesis using assms(1) by (simp add: Of_local_def bind_def)
qed

text \<open>
  Claim C8.  The claim: the incidence score computed for each term is the inverse of (the
  sum of the non-zero PMI values in the row of the term, divided by the vocabulary size).
  \<open>Incidency.Of\<close> rebinds its receiver before it computes anything, so the caller's map
  gets no score: for four distinct tokens and window 1 a nil map is still nil after the
  call and reads 0 for the term \<open>a\<close>, whose row sum is 0 and for which the claim says
  \<open>1 / (0 / 4) = +Inf\<close>.  And in the second loop of the body the division by the vocabulary
  size is overwritten by \<open>1 / v\<close>, with \<open>v\<close> the value from before the division: the
  sums 2 and 4 of a vocabulary of size 2 end as \<open>1 / 2\<close> and \<open>1 / 4\<close>, where the claim
  says \<open>1 / (2 / 2) = 1\<close> and \<open>1 / (4 / 2) = 1 / 2\<close>.
\<close>

theorem Of_stores_no_normalised_score:
  "Of None \<lparr>Tokens = [''a'', ''b'', ''c'', ''d''],
             TokenIndices = Some [(''a'', 0), (''b'', 1), (''c'', 2), (''d'', 3)]\<rparr> 1 = Inr None \<and>
   score None ''a'' = Fin 0 \<and>
   (\<exists>S. PMIs \<lparr>Tokens = [''a'', ''b'', ''c'', ''d''],
             TokenIndices = Some [(''a'', 0), (''b'', 1), (''c'', 2), (''d'', 3)]\<rparr> 1 = Inr S \<and>
        row_sum S 0 = Fin 0 \<and> incidence_spec S 0 4 = PInf) \<and>
   invert_scores (Some [(''a'', Fin 2), (''b'', Fin 4)]) =
     Inr (Some [(''a'', Fin (1 / 2)), (''b'', Fin (1 / 4))]) \<and>
   fdiv (Fin 1) (fdiv (Fin 2) (float64_of_int 2)) = Fin 1 \<and>
   fdiv (Fin 1) (fdiv (Fin 4) (float64_of_int 2)) = Fin (1 / 2)"
proof -
  let ?D = "\<lparr>Tokens = [''a'', ''b'', ''c'', ''d''],
             TokenIndices = Some [(''a'', 0), (''b'', 1), (''c'', 2), (''d'', 3)]\<rparr>"
  have "\<not> isl (UnigramPs ?D)" by code_simp
  then obtain U where U: "UnigramPs ?D = Inr U" by (cases "UnigramPs ?D") simp_all
  have "bind (SkipgramPs ?D 1) (\<lambda>M. Inr (rows M, cols M, map (\<lambda>j. cells M (0, j)) [0, 1, 2, 3]))
          = Inr (4, 4, [Fin 0, Fin 0, Fin 0, Fin 0])"
    by code_simp
  then obtain S0 where S0: "SkipgramPs ?D 1 = Inr S0" "rows S0 = 4" "cols S0 = 4"
      "cells S0 (0, 0) = Fin 0" "cells S0 (0, 1) = Fin 0" "cells S0 (0, 2) = Fin 0"
      "cells S0 (0, 3) = Fin 0"
    by (auto simp: bind_Inr_iff)
  from PMIs_cells [OF U S0(1)] obtain S where S: "PMIs ?D 1 = Inr S" "rows S = rows S0"
      "cols S = cols S0"
      "\<And>p. cells S p = (if cells S0 p \<noteq> Fin 0
                then flog (fdiv (cells S0 p) (fmul (U ! nat (fst p)) (U ! nat (snd p))))
                else cells S0 p)"
    by simp
  have "\<forall>(t, i)\<in>set (entries (TokenIndices ?D)). 0 \<le> i \<and> i < rows S"
    using S(2) S0(2) by (simp add: entries_def)
  from Of_local_returns [OF S(1) this] obtain I where "Of_local ?D 1 = Inr I" by blast
  then have caller: "Of None ?D 1 = Inr None" by (simp add: Of_def bind_def)
  have row: "cells S (0, j) = Fin 0" if "j \<in> {0..3}" for j
  proof -
    from that have "j = 0 \<or> j = 1 \<or> j = 2 \<or> j = 3" by auto
    then show ?thesis using S(4) [of "(0, j)"] S0(4-7) by auto
  qed
  have "row_nonzero S 0 = []"
    using row S(3) S0(3) by (simp add: row_nonzero_def filter_empty_conv)
  then have sum: "row_sum S 0 = Fin 0" by (simp add: row_sum_def)
  then have spec: "incidence_spec S 0 4 = PInf"
    by (simp add: incidence_spec_def float64_of_int_def overflow_small)
  have loop: "invert_scores (Some [(''a'', Fin 2), (''b'', Fin 4)]) =
     Inr (Some [(''a'', Fin (1 / 2)), (''b'', Fin (1 / 4))])"
    by code_simp
  have claim: "fdiv (Fin 1) (fdiv (Fin 2) (float64_of_int 2)) = Fin 1"
      "fdiv (Fin 1) (fdiv (Fin 4) (float64_of_int 2)) = Fin (1 / 2)"
    by code_simp+
  have "score None ''a'' = Fin 0" by (simp add: score_def map_get_def entries_def)
  with caller S(1) sum spec loop claim show ?thesis by blast
qed

section \<open>Nearest neighbours\<close>

lemma siftM_pure:
  "\<forall>y\<in>set ys. ltM x y = Inr (lt x y) \<Longrightarrow> siftM ltM x ys = Inr (sift lt x ys)"
  by (induction ys) (simp_all add: bind_def)

lemma foldM_siftM_pure:
  "\<forall>a\<in>A. \<forall>b\<in>A. ltM a b = Inr (lt a b) \<Longrightarrow> set xs \<subseteq> A \<Longrightarrow> set acc \<subseteq> A \<Longrightarrow>
     foldM (siftM ltM) xs acc = Inr (fold (sift lt) xs acc)"
proof (induction xs arbitrary: acc)
  case Nil
  then show ?case by simp
next
  case (Cons x xs)
  have "siftM ltM x acc = Inr (sift lt x acc)"
    using Cons.prems by (intro siftM_pure) auto
  moreover have "set (sift lt x acc) \<subseteq> A" using Cons.prems by (auto simp: set_sift)
  ultimately show ?case using Cons by simp
qed

lemma sort_sliceM_pure:
  "\<forall>a\<in>set xs. \<forall>b\<in>set xs. ltM a b = Inr (lt a b) \<Longrightarrow> sort_sliceM ltM xs = Inr (sort_slice lt xs)"
  using foldM_siftM_pure [of "set xs" ltM lt xs "[]"]
  by (simp add: sort_sliceM_def sort_slice_def bind_def)


text \<open>
  The claim C9 as stated fails: a negative count makes the final slice expression panic;
  a term that is not in the mapping has the nil vector, on which the dot product of the
  first comparison panics; and finite entries can give a NaN similarity (the products
  \<open>2 ^ 1200\<close> and \<open>- 2 ^ 1200\<close> overflow to \<open>+Inf\<close> and \<open>-Inf\<close>), which compares false with
  everything, so that \<open>b\<close> with similarity \<open>2 ^ 600\<close> stays before \<open>c\<close> with \<open>2 ^ 599\<close>.
\<close>

theorem Constellation_negative_count_panics:
  "Constellation (Some [(''a'', [Fin 1]), (''b'', [Fin 2])]) ''a'' (Some (- 1)) = Inl SliceBoundsOutOfRange \<and>
   Constellation (Some [(''a'', [Fin 1]), (''b'', [Fin 2])]) ''z'' (Some 1) = Inl NilDereference \<and>
   Constellation (Some [(''b'', [Fin 1, Fin 0]), (''a'', [Fin (2 ^ 600), Fin (- (2 ^ 600))]),
                        (''c'', [Fin (1 / 2), Fin 0]), (''t'', [Fin (2 ^ 600), Fin (2 ^ 600)])])
     ''t'' (Some 3) = Inr [''b'', ''a'', ''c''] \<and>
   CosSim (Some [(''b'', [Fin 1, Fin 0]), (''a'', [Fin (2 ^ 600), Fin (- (2 ^ 600))]),
                 (''c'', [Fin (1 / 2), Fin 0]), (''t'', [Fin (2 ^ 600), Fin (2 ^ 600)])])
     ''t'' ''a'' = Inr NaN"
proof -
  define m :: VecMapping where
    "m = Some [(''b'', [Fin 1, Fin 0]), (''a'', [Fin (2 ^ 600), Fin (- (2 ^ 600))]),
               (''c'', [Fin (1 / 2), Fin 0]), (''t'', [Fin (2 ^ 600), Fin (2 ^ 600)])]"
  have sims: "CosSim m ''t'' ''a'' = Inr NaN" "CosSim m ''t'' ''b'' = Inr (Fin (2 ^ 600))"
      "CosSim m ''t'' ''c'' = Inr (Fin (2 ^ 599))" "CosSim m ''t'' ''t'' = Inr PInf"
    by (simp_all add: m_def CosSim_def Dot_def map_get_def entries_def overflow_def
          overflow_threshold_def)
  have v: "Vocab m = [''b'', ''a'', ''c'', ''t'']" "map_len m = 4"
    by (simp_all add: m_def Vocab_def map_len_def entries_def)
  have "Constellation m ''t'' (Some 3) = Inr [''b'', ''a'', ''c'']"
    by (simp add: Constellation_def sort_sliceM_def go_rem_def slice_to_def bind_def sims v)
  moreover have
    "Constellation (Some [(''a'', [Fin 1]), (''b'', [Fin 2])]) ''a'' (Some (- 1)) = Inl SliceBoundsOutOfRange"
    "Constellation (Some [(''a'', [Fin 1]), (''b'', [Fin 2])]) ''z'' (Some 1) = Inl NilDereference"
    by code_simp+
  ultimately show ?thesis using sims(1) unfolding m_def by blast
qed

text \<open>
  Claim C9, amended.  For every mapping with a non-empty vocabulary, every term whose
  similarity to each vocabulary term is computed (the term is in the mapping and the
  vectors have one length) and is not NaN, and every non-negative count \<open>n\<close>,
  \<open>Constellation\<close> returns exactly \<open>n mod vocabSize\<close> terms, the first ones of the whole
  vocabulary sorted ascending by similarity to the term: the count 0 gives the empty
  sequence and a count above the vocabulary size wraps around.
\<close>

theorem Constellation_sorted_window:
  assumes "wf_map m" and "Vocab m \<noteq> []" and "0 \<le> n"
    and "\<forall>a\<in>set (Vocab m). \<exists>x. CosSim m t a = Inr x \<and> x \<noteq> NaN"
  shows "\<exists>r rest. Constellation m t (Some n) = Inr r \<and>
           int (length r) = n mod map_len m \<and>
           set (r @ rest) = set (Vocab m) \<and> distinct (r @ rest) \<and>
           sorted_wrt (\<lambda>a b. \<exists>x y. CosSim m t a = Inr x \<and> CosSim m t b = Inr y \<and> fle x y) (r @ rest)"
proof -
  let ?ks = "Vocab m"
  have d: "distinct ?ks" using assms(1) by (simp add: wf_map_def Vocab_def)
  have len: "0 < map_len m" using assms(2) by (simp add: map_len_def Vocab_def)
  have simval: "CosSim m t a = Inr (similarity m t a)" "similarity m t a \<noteq> NaN" if "a \<in> set ?ks" for a
    using assms(4) that by (auto simp: similarity_def)
  have nn: "\<forall>a\<in>set ?ks. similarity m t a \<noteq> NaN" using simval(2) by blast
  have "\<forall>a\<in>set ?ks. \<forall>b\<in>set ?ks.
          bind (CosSim m t a) (\<lambda>x. bind (CosSim m t b) (\<lambda>y. Inr (flt x y)))
            = Inr (flt (similarity m t a) (similarity m t b))"
    using simval(1) by (simp add: bind_def)
  then have srt: "sort_sliceM (\<lambda>a b. bind (CosSim m t a) (\<lambda>x. bind (CosSim m t b) (\<lambda>y. Inr (flt x y)))) ?ks
      = Inr (sort_slice (\<lambda>a b. flt (similarity m t a) (similarity m t b)) ?ks)"
    by (rule sort_sliceM_pure)
  have rem: "go_rem n (map_len m) = Inr (n mod map_len m)"
    using go_rem_nonneg [of n "map_len m"] assms(3) len by simp
  have k: "0 \<le> n mod map_len m" "n mod map_len m \<le> int (length ?ks)"
    using len by (simp_all add: map_len_def Vocab_def less_imp_le)
  from sorted_prefix [OF d nn k] obtain r rest where
    r: "slice_to (sort_slice (\<lambda>a b. flt (similarity m t a) (similarity m t b)) ?ks) (n mod map_len m) = Inr r"
      "int (length r) = n mod map_len m" "set (r @ rest) = set ?ks" "distinct (r @ rest)"
      "sorted_wrt (\<lambda>a b. fle (similarity m t a) (similarity m t b)) (r @ rest)"
    by blast
  have "sorted_wrt (\<lambda>a b. \<exists>x y. CosSim m t a = Inr x \<and> CosSim m t b = Inr y \<and> fle x y) (r @ rest)"
    using r(5)
  proof (rule sorted_wrt_mono_rel [rotated])
    fix a b assume "a \<in> set (r @ rest)" "b \<in> set (r @ rest)" "fle (similarity m t a) (similarity m t b)"
    then show "\<exists>x y. CosSim m t a = Inr x \<and> CosSim m t b = Inr y \<and> fle x y"
      using simval(1) r(3) by metis
  qed
  moreover have "Constellation m t (Some n) = Inr r"
    using srt rem r(1) by (simp add: Constellation_def bind_def)
  ultimately show ?thesis using r(2,3,4) by blast
qed

theorem Constellation_sorted_window_witness:
  "Constellation (Some [(''a'', [Fin 1, Fin 2]), (''b'', [Fin 3, Fin 1]), (''c'', [Fin (- 1), Fin 1])]) ''a'' (Some 5)
     = Inr [''c'', ''a''] \<and>
   (\<exists>r rest. Constellation (Some [(''a'', [Fin 1, Fin 2]), (''b'', [Fin 3, Fin 1]), (''c'', [Fin (- 1), Fin 1])]) ''a'' (Some 5) = Inr r \<and>
     int (length r) = 2 \<and> set (r @ rest) = {''a'', ''b'', ''c''} \<and> distinct (r @ rest))"
proof -
  let ?m = "Some [(''a'', [Fin 1, Fin 2]), (''b'', [Fin 3, Fin 1]), (''c'', [Fin (- 1), Fin 1])] :: VecMapping"
  have "Constellation ?m ''a'' (Some 5) = Inr [''c'', ''a'']" by code_simp
  moreover have sims: "CosSim ?m ''a'' ''a'' = Inr (Fin 5)" "CosSim ?m ''a'' ''b'' = Inr (Fin 5)"
      "CosSim ?m ''a'' ''c'' = Inr (Fin 1)"
    by code_simp+
  have "\<exists>r rest. Constellation ?m ''a'' (Some 5) = Inr r \<and>
     int (length r) = 2 \<and> set (r @ rest) = {''a'', ''b'', ''c''} \<and> distinct (r @ rest)"
    using Constellation_sorted_window [of ?m 5 "''a''"] sims
    by (simp add: wf_map_def entries_def map_len_def Vocab_def insert_commute) blast
  ultimately show ?thesis by blast
qed

section \<open>Adjacency\<close>

text \<open>
  Claim C10.  The claim: for two identical mappings every adjacency score is computed
  without a division by zero and \<open>DocSim\<close> is finite.  The running mean divides by
  \<open>n = float64(q)\<close>, which is 0 for the first of the other mappings, so with the one-term
  mapping \<open>a \<mapsto> [1]\<close> passed twice the score of \<open>a\<close> is \<open>(0 * 0 + 1) / 0 = +Inf\<close>, and \<open>DocSim\<close>
  of that map is \<open>+Inf\<close>.  The caller's own map is not written (a nil map stays nil), and
  \<open>DocSim\<close> of an empty map is \<open>0 / 0\<close>, NaN.
\<close>

theorem Between_identical_divides_by_zero:
  "Between_local [Some [(''a'', [Fin 1])], Some [(''a'', [Fin 1])]] = Inr (Some [(''a'', PInf)]) \<and>
   DocSim (Some [(''a'', PInf)]) = PInf \<and> \<not> is_finite PInf \<and>
   Between None [Some [(''a'', [Fin 1])], Some [(''a'', [Fin 1])]] = Inr None \<and>
   DocSim None = NaN \<and> \<not> is_finite NaN"
  by code_simp

end
